theory Spec2Isabelle
  imports Complex_Main
begin

section \<open>Data model\<close>

text \<open>
  A cell of the board is \<^verbatim>\<open>'X'\<close>, \<^verbatim>\<open>'O'\<close> or \<^verbatim>\<open>null\<close>; the board is a flat
  JavaScript array read in row-major order. \<open>MarkX\<close> and \<open>MarkO\<close> stand for the
  strings \<^verbatim>\<open>'X'\<close> and \<^verbatim>\<open>'O'\<close>. \<open>None\<close> is the falsy cell (\<^verbatim>\<open>null\<close>, and
  \<^verbatim>\<open>undefined\<close> for a read past the end of the array).
\<close>

datatype mark = MarkX | MarkO

type_synonym cell = "mark option"

type_synonym board = "cell list"

text \<open>\<^verbatim>\<open>b[i]\<close>: a read past the end of a JavaScript array is \<^verbatim>\<open>undefined\<close>, which is falsy.\<close>

definition cell_at :: "board \<Rightarrow> nat \<Rightarrow> cell" where
  "cell_at b i = (if i < length b then b ! i else None)"

text \<open>The opposing side, \<^verbatim>\<open>player === 'X' ? 'O' : 'X'\<close>, wherever the source writes it.\<close>

definition other :: "mark \<Rightarrow> mark" where
  "other player = (if player = MarkX then MarkO else MarkX)"

text \<open>\<^verbatim>\<open>Array(9).fill(null)\<close>\<close>

definition empty_board :: board where
  "empty_board = replicate 9 None"

text \<open>\<^verbatim>\<open>b.every(Boolean)\<close>\<close>

definition every_Boolean :: "board \<Rightarrow> bool" where
  "every_Boolean b = list_all (\<lambda>c. c \<noteq> None) b"

section \<open>hooks/useTicTacToe.js: computeWinner\<close>

definition lines :: "(nat \<times> nat \<times> nat) list" where
  "lines = [(0,1,2),(3,4,5),(6,7,8), (0,3,6),(1,4,7),(2,5,8), (0,4,8),(2,4,6)]"

text \<open>The \<^verbatim>\<open>for (const [a,b,c] of lines)\<close> loop: the first complete line decides.\<close>

fun computeWinner_loop :: "board \<Rightarrow> (nat \<times> nat \<times> nat) list \<Rightarrow> mark option" where
  "computeWinner_loop board [] = None"
| "computeWinner_loop board ((a, b, c) # rest) =
     (if cell_at board a \<noteq> None \<and> cell_at board a = cell_at board b
         \<and> cell_at board a = cell_at board c
      then cell_at board a
      else computeWinner_loop board rest)"

definition computeWinner :: "board \<Rightarrow> mark option" where
  "computeWinner board = computeWinner_loop board lines"

section \<open>The AI module: chooseBestMove\<close>

subsection \<open>quickHeuristic\<close>

text \<open>\<^verbatim>\<open>for (const i of xs) if (!board[i]) return i;\<close> falling through to \<open>rest\<close>.\<close>

fun first_empty :: "board \<Rightarrow> nat list \<Rightarrow> int \<Rightarrow> int" where
  "first_empty board [] rest = rest"
| "first_empty board (i # is) rest =
     (if cell_at board i = None then int i else first_empty board is rest)"

definition quickHeuristic :: "board \<Rightarrow> int" where
  "quickHeuristic board =
     (let center = 4; corners = [0, 2, 6, 8]; edges = [1, 3, 5, 7] in
      if cell_at board center = None then int center
      else first_empty board corners (first_empty board edges (- 1)))"

subsection \<open>minimaxDriver\<close>

text \<open>
  JavaScript numbers as far as the search uses them: the integers and the two infinities
  that initialise \<^verbatim>\<open>best.score\<close>.
\<close>

datatype jsnum = NegInfinity | Finite int | PosInfinity

text \<open>\<^verbatim>\<open>a < b\<close> on these numbers (\<^verbatim>\<open>a > b\<close> is \<open>js_less b a\<close>).\<close>

fun js_less :: "jsnum \<Rightarrow> jsnum \<Rightarrow> bool" where
  "js_less (Finite a) (Finite b) = (a < b)"
| "js_less NegInfinity NegInfinity = False"
| "js_less NegInfinity (Finite b) = True"
| "js_less NegInfinity PosInfinity = True"
| "js_less (Finite a) NegInfinity = False"
| "js_less (Finite a) PosInfinity = True"
| "js_less PosInfinity b = False"

record mm_result =
  score :: jsnum
  move :: int

text \<open>\<^verbatim>\<open>for (let i = 0; i < 9; i++) if (!b[i]) out.push(i);\<close>\<close>

definition availableMoves :: "board \<Rightarrow> nat list" where
  "availableMoves b = filter (\<lambda>i. cell_at b i = None) [0..<9]"

text \<open>
  \<open>cw\<close> is the injected \<^verbatim>\<open>opts.computeWinner\<close>. The result \<open>None\<close> is the source's
  \<^verbatim>\<open>null\<close> (non-terminal).
\<close>

definition terminalScore ::
  "(board \<Rightarrow> mark option) \<Rightarrow> mark \<Rightarrow> board \<Rightarrow> nat \<Rightarrow> int option" where
  "terminalScore cw aiPlayer b depthLeft =
     (let human = other aiPlayer; w = cw b in
      if w = Some aiPlayer then Some (10 + int depthLeft)
      else if w = Some human then Some (- 10 - int depthLeft)
      else if every_Boolean b then Some 0
      else None)"

text \<open>
  One pass of the body of \<^verbatim>\<open>for (const m of moves)\<close>, given the result \<open>res\<close> of the
  recursive call: the comparison that may replace \<^verbatim>\<open>best\<close>.
\<close>

definition keep_best :: "mark \<Rightarrow> mark \<Rightarrow> nat \<Rightarrow> mm_result \<Rightarrow> mm_result \<Rightarrow> mm_result" where
  "keep_best aiPlayer player m res best =
     (if player = aiPlayer
      then (if js_less (score best) (score res) then \<lparr>score = score res, move = int m\<rparr> else best)
      else (if js_less (score res) (score best) then \<lparr>score = score res, move = int m\<rparr> else best))"

text \<open>
  The recursion works on one shared array \<open>b\<close>, which it writes and restores; the model
  threads that array through every call and returns it beside the result. \<open>depthLeft\<close> is
  a natural number: the driver passes a value between 1 and 9 and a call recurses with
  \<^verbatim>\<open>depthLeft - 1\<close> only after \<^verbatim>\<open>depthLeft === 0\<close> has failed. The array has nine cells
  (the facade checks it), so every write \<^verbatim>\<open>b[m] = ...\<close> with \<open>m < 9\<close> is in range.
\<close>

fun minimax ::
  "(board \<Rightarrow> mark option) \<Rightarrow> mark \<Rightarrow> board \<Rightarrow> mark \<Rightarrow> nat \<Rightarrow> mm_result \<times> board" where
  "minimax cw aiPlayer b player depthLeft =
     (let t = terminalScore cw aiPlayer b depthLeft in
      if t \<noteq> None \<or> depthLeft = 0
      then (\<lparr>score = Finite (case t of Some s \<Rightarrow> s | None \<Rightarrow> 0), move = - 1\<rparr>, b)
      else
        let moves = availableMoves b;
            best = \<lparr>score = (if player = aiPlayer then NegInfinity else PosInfinity), move = - 1\<rparr>
        in fold (\<lambda>m (best, b).
                   let b1 = b[m := Some player];
                       (res, b2) = minimax cw aiPlayer b1 (other player) (depthLeft - 1);
                       b3 = b2[m := None]
                   in (keep_best aiPlayer player m res best, b3))
                moves (best, b))"

declare minimax.simps [simp del]

text \<open>
  \<^verbatim>\<open>Math.max(1, Math.min(9, maxDepth || 9))\<close>: the depth the search starts with. The
  number \<open>0\<close> is falsy, so \<^verbatim>\<open>maxDepth || 9\<close> is \<open>9\<close> for it.
\<close>

definition effectiveDepth :: "int \<Rightarrow> int" where
  "effectiveDepth maxDepth = max 1 (min 9 (if maxDepth = 0 then 9 else maxDepth))"

text \<open>
  \<^verbatim>\<open>minimax([...board], aiPlayer, ...)\<close>: the search runs on a copy of the caller's array.
  \<open>minimaxDriver_run\<close> returns \<^verbatim>\<open>result\<close> together with the contents of that copy when
  the search has returned; \<open>minimaxDriver\<close> is the value the source returns.
\<close>

definition minimaxDriver_run ::
  "board \<Rightarrow> mark \<Rightarrow> int \<Rightarrow> (board \<Rightarrow> mark option) \<Rightarrow> mm_result \<times> board" where
  "minimaxDriver_run b aiPlayer maxDepth cw =
     (let scratch = b in minimax cw aiPlayer scratch aiPlayer (nat (effectiveDepth maxDepth)))"

definition minimaxDriver :: "board \<Rightarrow> mark \<Rightarrow> int \<Rightarrow> (board \<Rightarrow> mark option) \<Rightarrow> int" where
  "minimaxDriver b aiPlayer maxDepth cw = move (fst (minimaxDriver_run b aiPlayer maxDepth cw))"

subsection \<open>chooseBestMove\<close>

text \<open>
  The first argument is any JavaScript value; \<^verbatim>\<open>Array.isArray\<close> tells the arrays from
  the rest. The options follow the documented type: \<open>strategy\<close> is a string or absent,
  \<open>depth\<close> is an integer or absent (\<open>None\<close>, for which the destructuring default \<open>9\<close> applies), and
  \<open>computeWinner\<close> is the injected classifier, \<open>None\<close> when the caller left it out. The
  whole options object may be missing (\<^verbatim>\<open>opts || {}\<close>). Calling a missing classifier is
  the only operation of the module that throws.
\<close>

datatype 'a js_arg = NotArray | JsArray "'a list"

datatype error = TypeError

record opts =
  strategy :: "string option"
  depth :: "int option"
  computeWinner_of :: "(board \<Rightarrow> mark option) option"

definition no_opts :: opts where
  "no_opts = \<lparr>strategy = None, depth = None, computeWinner_of = None\<rparr>"

definition chooseBestMove :: "cell js_arg \<Rightarrow> mark \<Rightarrow> opts option \<Rightarrow> error + int" where
  "chooseBestMove board_arg aiPlayer opts_arg =
     (let r = (case opts_arg of None \<Rightarrow> no_opts | Some r \<Rightarrow> r);
          d = (case depth r of None \<Rightarrow> 9 | Some d \<Rightarrow> d)
      in case board_arg of
           NotArray \<Rightarrow> Inr (- 1)
         | JsArray b \<Rightarrow>
             if length b \<noteq> 9 then Inr (- 1)
             else if strategy r = Some ''quick'' then Inr (quickHeuristic b)
             else (case computeWinner_of r of
                     None \<Rightarrow> Inl TypeError
                   | Some cw \<Rightarrow> Inr (minimaxDriver b aiPlayer d cw)))"

text \<open>The options the game hook passes: a strategy, a depth and its own \<open>computeWinner\<close>.\<close>

definition game_opts :: "string \<Rightarrow> int option \<Rightarrow> opts option" where
  "game_opts s d = Some \<lparr>strategy = Some s, depth = d, computeWinner_of = Some computeWinner\<rparr>"

section \<open>utils/audit.js\<close>

definition MAX_LOGS :: nat where
  "MAX_LOGS = 100"

text \<open>\<^verbatim>\<open>arr.slice(-n)\<close> for \<open>n > 0\<close>: the last \<open>n\<close> elements, all of them if there are fewer.\<close>

definition slice_last :: "nat \<Rightarrow> 'e list \<Rightarrow> 'e list" where
  "slice_last n xs = drop (length xs - n) xs"

text \<open>
  The initial \<^verbatim>\<open>buffer\<close>. The argument is what \<^verbatim>\<open>JSON.parse\<close> gave for the stored
  text when that is an array; \<open>None\<close> when nothing is stored, the parse throws or the
  value is no array.
\<close>

definition init_buffer :: "'e list option \<Rightarrow> 'e list" where
  "init_buffer stored = (case stored of None \<Rightarrow> [] | Some arr \<Rightarrow> slice_last MAX_LOGS arr)"

text \<open>\<open>logEvent\<close> on the buffer; \<open>payload\<close> is the event with its timestamp filled in.\<close>

definition logEvent :: "'e \<Rightarrow> 'e list \<Rightarrow> 'e list" where
  "logEvent payload buffer =
     (let buffer1 = buffer @ [payload] in
      if length buffer1 > MAX_LOGS then slice_last MAX_LOGS buffer1 else buffer1)"

definition getAuditLog :: "'e list \<Rightarrow> 'e list" where
  "getAuditLog buffer = buffer"

section \<open>hooks/useTicTacToe.js: the game state\<close>

text \<open>
  The argument of \<open>makeMove\<close> is any JavaScript value: a value whose \<^verbatim>\<open>typeof\<close> is not
  \<^verbatim>\<open>'number'\<close>, or a number, which is \<^verbatim>\<open>NaN\<close>, an infinity or a finite number (an
  integer or a fraction).
\<close>

datatype js_index = NotNumber | NaN | MinusInfinity | PlusInfinity | Num real

text \<open>
  \<^verbatim>\<open>typeof index !== 'number' || index < 0 || index > 8\<close>. Every comparison with
  \<^verbatim>\<open>NaN\<close> is false.
\<close>

definition index_refused :: "js_index \<Rightarrow> bool" where
  "index_refused index =
     (case index of
        NotNumber \<Rightarrow> True
      | NaN \<Rightarrow> False
      | MinusInfinity \<Rightarrow> True
      | PlusInfinity \<Rightarrow> True
      | Num x \<Rightarrow> x < 0 \<or> x > 8)"

text \<open>
  A JavaScript array is an object: besides its elements it holds properties under keys
  that are no array index. \<^verbatim>\<open>board[index]\<close> is an element when the number is a
  non-negative integer, and the property under the number's own key otherwise (a
  fraction, \<^verbatim>\<open>NaN\<close>); a missing property reads as \<^verbatim>\<open>undefined\<close>, the falsy \<open>None\<close>.
  \<open>read_at\<close> and \<open>write_at\<close> are used for indices that passed the guard above, for which
  an element index is between 0 and 8.
\<close>

record board_obj =
  cells :: board
  props :: "js_index \<Rightarrow> cell"

definition is_element_index :: "js_index \<Rightarrow> bool" where
  "is_element_index index = (case index of Num x \<Rightarrow> x \<in> \<int> \<and> 0 \<le> x | _ \<Rightarrow> False)"

definition element_index :: "js_index \<Rightarrow> nat" where
  "element_index index = (case index of Num x \<Rightarrow> nat \<lfloor>x\<rfloor> | _ \<Rightarrow> 0)"

definition read_at :: "board_obj \<Rightarrow> js_index \<Rightarrow> cell" where
  "read_at a index =
     (if is_element_index index then cell_at (cells a) (element_index index) else props a index)"

definition write_at :: "board_obj \<Rightarrow> js_index \<Rightarrow> cell \<Rightarrow> board_obj" where
  "write_at a index v =
     (if is_element_index index then a\<lparr>cells := (cells a)[element_index index := v]\<rparr>
      else a\<lparr>props := (props a)(index := v)\<rparr>)"

text \<open>\<^verbatim>\<open>[...board]\<close> copies the elements only.\<close>

definition spread :: "board_obj \<Rightarrow> board_obj" where
  "spread a = \<lparr>cells = cells a, props = (\<lambda>k. None)\<rparr>"

text \<open>
  The scores are \<open>0\<close> or whatever values were restored from storage. The model leaves the
  type \<open>'n\<close> of these values open, and takes JavaScript's \<^verbatim>\<open>v + 1\<close> on them as the
  parameter \<open>plus1\<close>.
\<close>

record 'n scores =
  score_X :: 'n
  score_O :: 'n
  ties :: 'n

record 'n game =
  board :: board_obj
  currentPlayer :: mark
  winner :: "mark option"
  isDraw :: bool
  scores :: "'n scores"

text \<open>\<^verbatim>\<open>{ ...prev, [w]: prev[w] + 1 }\<close>\<close>

definition bump_score :: "('n \<Rightarrow> 'n) \<Rightarrow> mark \<Rightarrow> 'n scores \<Rightarrow> 'n scores" where
  "bump_score plus1 w prev =
     (case w of MarkX \<Rightarrow> prev\<lparr>score_X := plus1 (score_X prev)\<rparr>
              | MarkO \<Rightarrow> prev\<lparr>score_O := plus1 (score_O prev)\<rparr>)"

text \<open>
  \<open>updateOutcome\<close> returns the outcome \<^verbatim>\<open>{winner, isDraw}\<close> and performs the state
  updates \<^verbatim>\<open>setWinner\<close>, \<^verbatim>\<open>setIsDraw\<close>, \<^verbatim>\<open>setScores\<close> on the state it is given.
  \<open>computeWinner\<close> and \<^verbatim>\<open>every\<close> read the elements of the array only.
\<close>

definition updateOutcome ::
  "('n \<Rightarrow> 'n) \<Rightarrow> board_obj \<Rightarrow> 'n game \<Rightarrow> (mark option \<times> bool) \<times> 'n game" where
  "updateOutcome plus1 nextBoard g =
     (case computeWinner (cells nextBoard) of
        Some w \<Rightarrow>
          ((Some w, False),
           g\<lparr>winner := Some w, isDraw := False, scores := bump_score plus1 w (scores g)\<rparr>)
      | None \<Rightarrow>
          if every_Boolean (cells nextBoard)
          then ((None, True),
                g\<lparr>isDraw := True, winner := None,
                  scores := (scores g)\<lparr>ties := plus1 (ties (scores g))\<rparr>\<rparr>)
          else ((None, False), g\<lparr>winner := None, isDraw := False\<rparr>))"

text \<open>
  \<open>makeMove\<close> returns its boolean and the state after the scheduled updates. A rejected
  call returns before any setter runs and before \<^verbatim>\<open>logEvent\<close>; an accepted call also
  appends a \<^verbatim>\<open>MOVE\<close> event to the audit log, which is no part of this state.
  \<^verbatim>\<open>if (winner || isDraw) return false\<close> is written as its two tests in turn.
\<close>

definition makeMove :: "('n \<Rightarrow> 'n) \<Rightarrow> js_index \<Rightarrow> 'n game \<Rightarrow> bool \<times> 'n game" where
  "makeMove plus1 index g =
     (if winner g \<noteq> None then (False, g)
      else if isDraw g then (False, g)
      else if index_refused index then (False, g)
      else if read_at (board g) index \<noteq> None then (False, g)
      else
        let nextBoard = write_at (spread (board g)) index (Some (currentPlayer g));
            g1 = g\<lparr>board := nextBoard\<rparr>;
            (outcome, g2) = updateOutcome plus1 nextBoard g1;
            g3 = (if fst outcome = None \<and> \<not> snd outcome
                  then g2\<lparr>currentPlayer := other (currentPlayer g)\<rparr>
                  else g2)
        in (True, g3))"

text \<open>The hook's initial state, for the scores \<open>s\<close> restored from storage.\<close>

definition initial_game :: "'n scores \<Rightarrow> 'n game" where
  "initial_game s =
     \<lparr>board = \<lparr>cells = empty_board, props = (\<lambda>k. None)\<rparr>, currentPlayer = MarkX,
      winner = None, isDraw = False, scores = s\<rparr>"

section \<open>Notions the properties are stated with\<close>

subsection \<open>The search tree\<close>

text \<open>The result the recursive call returns for candidate \<open>m\<close> at a node.\<close>

definition child ::
  "(board \<Rightarrow> mark option) \<Rightarrow> mark \<Rightarrow> board \<Rightarrow> mark \<Rightarrow> nat \<Rightarrow> nat \<Rightarrow> mm_result" where
  "child cw aiPlayer b player d m =
     fst (minimax cw aiPlayer (b[m := Some player]) (other player) d)"

text \<open>
  Score \<open>a\<close> is strictly better than score \<open>c\<close> for the player to move: greater when the AI
  moves, smaller when its opponent does.
\<close>

definition better :: "mark \<Rightarrow> mark \<Rightarrow> jsnum \<Rightarrow> jsnum \<Rightarrow> bool" where
  "better aiPlayer player a c = (if player = aiPlayer then js_less c a else js_less a c)"

definition initial_best :: "mark \<Rightarrow> mark \<Rightarrow> mm_result" where
  "initial_best aiPlayer player =
     \<lparr>score = (if player = aiPlayer then NegInfinity else PosInfinity), move = - 1\<rparr>"

subsection \<open>The quick strategy as the specification words it\<close>

definition quick_priority_rule :: "board \<Rightarrow> int" where
  "quick_priority_rule b =
     (if b ! 4 = None then 4
      else case find (\<lambda>i. b ! i = None) [0, 2, 6, 8] of
             Some i \<Rightarrow> int i
           | None \<Rightarrow> (case find (\<lambda>i. b ! i = None) [1, 3, 5, 7] of
                        Some i \<Rightarrow> int i
                      | None \<Rightarrow> - 1))"

subsection \<open>Games against the search\<close>

text \<open>
  \<open>reach ai b p\<close>: the position \<open>b\<close> with \<open>p\<close> to move arises in a game from the empty
  board in which the side \<open>ai\<close> plays the index \<open>chooseBestMove\<close> returns for strategy
  \<^verbatim>\<open>'minimax'\<close> and depth 9, and the other side plays any empty cell. Either side may
  open. Nobody moves once a line is complete or the board is full.
\<close>

inductive reach :: "mark \<Rightarrow> board \<Rightarrow> mark \<Rightarrow> bool" for ai :: mark where
  start: "reach ai empty_board first"
| ai_moves:
    "reach ai b ai \<Longrightarrow> computeWinner b = None \<Longrightarrow> \<not> every_Boolean b \<Longrightarrow>
     chooseBestMove (JsArray b) ai (game_opts ''minimax'' (Some 9)) = Inr (int m) \<Longrightarrow>
     reach ai (b[m := Some ai]) (other ai)"
| opponent_moves:
    "reach ai b (other ai) \<Longrightarrow> computeWinner b = None \<Longrightarrow> \<not> every_Boolean b \<Longrightarrow>
     m < 9 \<Longrightarrow> cell_at b m = None \<Longrightarrow>
     reach ai (b[m := Some (other ai)]) ai"

text \<open>
  \<open>safe ai n b p\<close>: looking \<open>n\<close> plies ahead from \<open>b\<close> with \<open>p\<close> to move, the side \<open>ai\<close>
  has a way of playing on which its opponent completes no line.
\<close>

fun safe :: "mark \<Rightarrow> nat \<Rightarrow> board \<Rightarrow> mark \<Rightarrow> bool" where
  "safe ai 0 b p = (computeWinner b \<noteq> Some (other ai))"
| "safe ai (Suc n) b p =
     (if computeWinner b = Some ai then True
      else if computeWinner b = Some (other ai) then False
      else if every_Boolean b then True
      else if p = ai
        then list_ex (\<lambda>m. safe ai n (b[m := Some p]) (other p)) (availableMoves b)
        else list_all (\<lambda>m. safe ai n (b[m := Some p]) (other p)) (availableMoves b))"

text \<open>
  The same test, run in an order that decides it quickly: the AI's replies are tried
  centre first, then corners, then edges, and the test stops at the first that works.
\<close>

fun some_of :: "('a \<Rightarrow> bool) \<Rightarrow> 'a list \<Rightarrow> bool" where
  "some_of P [] = False"
| "some_of P (x # xs) = (if P x then True else some_of P xs)"

fun each_of :: "('a \<Rightarrow> bool) \<Rightarrow> 'a list \<Rightarrow> bool" where
  "each_of P [] = True"
| "each_of P (x # xs) = (if P x then each_of P xs else False)"

definition preferred :: "nat list" where
  "preferred = [4, 0, 2, 6, 8, 1, 3, 5, 7]"

definition descending :: "nat list" where
  "descending = [8, 7, 6, 5, 4, 3, 2, 1, 0]"

fun hinted :: "mark \<Rightarrow> nat \<Rightarrow> board \<Rightarrow> mark \<Rightarrow> bool" where
  "hinted ai 0 b p = (computeWinner b \<noteq> Some (other ai))"
| "hinted ai (Suc n) b p =
     (let w = computeWinner b in
      if w = Some ai then True
      else if w = Some (other ai) then False
      else if every_Boolean b then True
      else if p = ai
        then some_of (\<lambda>m. if cell_at b m = None
                           then hinted ai n (b[m := Some p]) (other p) else False) preferred
        else each_of (\<lambda>m. if cell_at b m = None
                           then hinted ai n (b[m := Some p]) (other p) else True) descending)"

subsection \<open>Rejected moves of the game hook\<close>

text \<open>
  The calls \<open>makeMove\<close> is to reject: the game is won or drawn, the index is no number
  from 0 to 8, or the cell at the index is occupied.
\<close>

definition to_reject :: "js_index \<Rightarrow> 'n game \<Rightarrow> bool" where
  "to_reject index g =
     (winner g \<noteq> None \<or> isDraw g \<or>
      (case index of
         Num x \<Rightarrow> x < 0 \<or> 8 < x \<or>
                  (x \<in> \<int> \<and> cell_at (cells (board g)) (nat \<lfloor>x\<rfloor>) \<noteq> None)
       | _ \<Rightarrow> True))"

subsection \<open>Example positions\<close>

text \<open>X holds the top row and four cells are empty.\<close>

definition board_c2 :: board where
  "board_c2 = [Some MarkX, Some MarkX, Some MarkX, Some MarkO, Some MarkO, None, None, None, None]"

text \<open>
  Three marks each, X to move; O threatens the diagonal 2-4-6, which only a search of
  two plies or more sees.
\<close>

definition board_c3 :: board where
  "board_c3 = [None, None, None, Some MarkX, Some MarkO, Some MarkO, Some MarkO, Some MarkX, Some MarkX]"

text \<open>A fresh game with all scores \<open>0\<close>; \<open>plus1_int\<close> is \<^verbatim>\<open>v + 1\<close> on such small integers.\<close>

definition game_c9 :: "int game" where
  "game_c9 = initial_game \<lparr>score_X = 0, score_O = 0, ties = 0\<rparr>"

definition plus1_int :: "int \<Rightarrow> int" where
  "plus1_int v = v + 1"

section \<open>Basic facts\<close>

lemma update_None_id: "cell_at b m = None \<Longrightarrow> b[m := None] = b"
proof (cases "m < length b")
  case True
  assume "cell_at b m = None"
  with True have "b ! m = None" by (simp add: cell_at_def)
  then show ?thesis by (metis list_update_id)
next
  case False
  then show ?thesis by (simp add: list_update_beyond not_less)
qed

lemma cell_at_availableMoves: "m \<in> set (availableMoves b) \<Longrightarrow> cell_at b m = None \<and> m < 9"
  by (simp add: availableMoves_def)

lemma fold_restore:
  assumes "\<And>b'. snd (g b') = b'"
    and "\<forall>m\<in>set ms. cell_at b m = None"
  shows "fold (\<lambda>m (best, b). case g (b[m := Some p]) of
                                (res, b2) \<Rightarrow> (k m res best, b2[m := None])) ms (best0, b)
         = (fold (\<lambda>m best. k m (fst (g (b[m := Some p]))) best) ms best0, b)"
  using assms(2)
proof (induction ms arbitrary: best0)
  case Nil
  show ?case by simp
next
  case (Cons m ms)
  have "snd (g (b[m := Some p])) = b[m := Some p]" by (rule assms(1))
  then obtain r where r: "g (b[m := Some p]) = (r, b[m := Some p])"
    by (metis prod.collapse)
  from Cons.prems have e: "cell_at b m = None" by simp
  from Cons.prems have rest: "\<forall>m\<in>set ms. cell_at b m = None" by simp
  show ?case
    by (simp add: r update_None_id [OF e] Cons.IH [OF rest])
qed

lemma minimax_restores: "snd (minimax cw aiPlayer b player depthLeft) = b"
proof (induction depthLeft arbitrary: b player)
  case 0
  show ?case by (subst minimax.simps) (simp add: Let_def)
next
  case (Suc d)
  show ?case
  proof (cases "terminalScore cw aiPlayer b (Suc d)")
    case (Some t)
    then show ?thesis by (subst minimax.simps) (simp add: Let_def)
  next
    case None
    have av: "\<forall>m\<in>set (availableMoves b). cell_at b m = None"
      by (simp add: cell_at_availableMoves)
    show ?thesis
      by (subst minimax.simps)
         (simp add: None Let_def fold_restore [where g = "\<lambda>b'. minimax cw aiPlayer b' (other player) d", OF Suc.IH av] split del: if_split)
  qed
qed

lemma minimax_node:
  assumes "terminalScore cw aiPlayer b (Suc d) = None"
  shows "fst (minimax cw aiPlayer b player (Suc d))
         = fold (\<lambda>m best. keep_best aiPlayer player m (child cw aiPlayer b player d m) best)
             (availableMoves b) (initial_best aiPlayer player)"
proof -
  have av: "\<forall>m\<in>set (availableMoves b). cell_at b m = None"
    by (simp add: cell_at_availableMoves)
  show ?thesis
    by (subst minimax.simps)
       (simp add: assms Let_def child_def initial_best_def
          fold_restore [where g = "\<lambda>b'. minimax cw aiPlayer b' (other player) d", OF minimax_restores av] split del: if_split)
qed

lemma js_less_irrefl: "\<not> js_less a a"
  by (cases a) simp_all

lemma js_less_trans: "js_less a b \<Longrightarrow> js_less b c \<Longrightarrow> js_less a c"
  by (cases a; cases b; cases c) simp_all

lemma js_less_negtrans: "\<not> js_less a b \<Longrightarrow> \<not> js_less b c \<Longrightarrow> \<not> js_less a c"
  by (cases a; cases b; cases c) simp_all

lemma better_irrefl: "\<not> better aiPlayer player a a"
  by (simp add: better_def js_less_irrefl)

lemma better_trans:
  "better aiPlayer player a b \<Longrightarrow> better aiPlayer player b c \<Longrightarrow> better aiPlayer player a c"
  by (auto simp: better_def intro: js_less_trans split: if_splits)

lemma better_negtrans:
  "\<not> better aiPlayer player a b \<Longrightarrow> \<not> better aiPlayer player b c \<Longrightarrow> \<not> better aiPlayer player a c"
  by (auto simp: better_def dest: js_less_negtrans split: if_splits)

lemma better_initial: "better aiPlayer player (Finite v) (score (initial_best aiPlayer player))"
  by (simp add: better_def initial_best_def)

lemma keep_best_better:
  "keep_best aiPlayer player m res best =
     (if better aiPlayer player (score res) (score best)
      then \<lparr>score = score res, move = int m\<rparr> else best)"
  by (simp add: keep_best_def better_def)

lemma fold_keep_best:
  fixes r :: "nat \<Rightarrow> mm_result"
  defines "s \<equiv> \<lambda>m. score (r m)"
  shows "(\<forall>j<length ms. \<not> better aiPlayer player (s (ms ! j))
             (score (fold (\<lambda>m best. keep_best aiPlayer player m (r m) best) ms best0))) \<and>
         (fold (\<lambda>m best. keep_best aiPlayer player m (r m) best) ms best0 = best0 \<or>
          (\<exists>i<length ms.
             fold (\<lambda>m best. keep_best aiPlayer player m (r m) best) ms best0
               = \<lparr>score = s (ms ! i), move = int (ms ! i)\<rparr> \<and>
             (\<forall>j<i. better aiPlayer player (s (ms ! i)) (s (ms ! j))) \<and>
             better aiPlayer player (s (ms ! i)) (score best0)))"
    (is "?P1 ms \<and> ?P2 ms")
proof (induction ms rule: rev_induct)
  case Nil
  show ?case by simp
next
  case (snoc m ms)
  let ?res = "fold (\<lambda>m best. keep_best aiPlayer player m (r m) best) ms best0"
  let ?res' = "fold (\<lambda>m best. keep_best aiPlayer player m (r m) best) (ms @ [m]) best0"
  from snoc.IH have p1: "\<forall>j<length ms. \<not> better aiPlayer player (s (ms ! j)) (score ?res)"
    and p2: "?P2 ms" by blast+
  show ?case
  proof (cases "better aiPlayer player (s m) (score ?res)")
    case True
    then have res': "?res' = \<lparr>score = s m, move = int m\<rparr>"
      by (simp add: keep_best_better s_def)
    have a: "\<forall>j<length ms. better aiPlayer player (s m) (s (ms ! j))"
      using p1 True better_negtrans by blast
    have b: "better aiPlayer player (s m) (score best0)"
    proof (cases "?res = best0")
      case True
      with \<open>better aiPlayer player (s m) (score ?res)\<close> show ?thesis by simp
    next
      case False
      with p2 obtain i where "score ?res = s (ms ! i)"
        and "better aiPlayer player (s (ms ! i)) (score best0)"
        by auto
      with True show ?thesis using better_trans by metis
    qed
    have c: "\<forall>j<length (ms @ [m]). \<not> better aiPlayer player (s ((ms @ [m]) ! j)) (s m)"
    proof (intro allI impI)
      fix j assume "j < length (ms @ [m])"
      then consider "j < length ms" | "j = length ms" by fastforce
      then show "\<not> better aiPlayer player (s ((ms @ [m]) ! j)) (s m)"
      proof cases
        case 1
        with a have "better aiPlayer player (s m) (s (ms ! j))" by simp
        then have "\<not> better aiPlayer player (s (ms ! j)) (s m)"
          using better_trans better_irrefl by blast
        with 1 show ?thesis by (simp add: nth_append)
      next
        case 2
        then show ?thesis by (simp add: better_irrefl)
      qed
    qed
    have d: "?P2 (ms @ [m])"
    proof -
      have "length ms < length (ms @ [m])" by simp
      moreover have "?res' = \<lparr>score = s ((ms @ [m]) ! length ms), move = int ((ms @ [m]) ! length ms)\<rparr>"
        using res' by simp
      moreover have "\<forall>j<length ms. better aiPlayer player (s ((ms @ [m]) ! length ms)) (s ((ms @ [m]) ! j))"
        using a by (simp add: nth_append)
      moreover have "better aiPlayer player (s ((ms @ [m]) ! length ms)) (score best0)"
        using b by simp
      ultimately show ?thesis by blast
    qed
    from c d show ?thesis by (simp only: res' mm_result.simps) 
  next
    case False
    then have res': "?res' = ?res"
      by (simp add: keep_best_better s_def)
    have c: "\<forall>j<length (ms @ [m]). \<not> better aiPlayer player (s ((ms @ [m]) ! j)) (score ?res)"
    proof (intro allI impI)
      fix j assume "j < length (ms @ [m])"
      then consider "j < length ms" | "j = length ms" by fastforce
      then show "\<not> better aiPlayer player (s ((ms @ [m]) ! j)) (score ?res)"
        using p1 False by cases (simp_all add: nth_append)
    qed
    have d: "?P2 (ms @ [m])"
    proof (cases "?res = best0")
      case True
      then show ?thesis by (simp only: res') simp
    next
      case False
      with p2 obtain i where i: "i < length ms"
        "?res = \<lparr>score = s (ms ! i), move = int (ms ! i)\<rparr>"
        "\<forall>j<i. better aiPlayer player (s (ms ! i)) (s (ms ! j))"
        "better aiPlayer player (s (ms ! i)) (score best0)"
        by blast
      have "i < length (ms @ [m])" using i(1) by simp
      moreover have "?res' = \<lparr>score = s ((ms @ [m]) ! i), move = int ((ms @ [m]) ! i)\<rparr>"
        using i(1,2) res' by (simp add: nth_append)
      moreover have "\<forall>j<i. better aiPlayer player (s ((ms @ [m]) ! i)) (s ((ms @ [m]) ! j))"
        using i(1,3) by (simp add: nth_append)
      moreover have "better aiPlayer player (s ((ms @ [m]) ! i)) (score best0)"
        using i(1,4) by (simp add: nth_append)
      ultimately show ?thesis by blast
    qed
    from c d show ?thesis by (simp only: res')
  qed
qed

lemma cell_at_in_range: "i < length b \<Longrightarrow> cell_at b i = b ! i"
  by (simp add: cell_at_def)

lemma quickHeuristic_rule: "length b = 9 \<Longrightarrow> quickHeuristic b = quick_priority_rule b"
  by (simp add: quickHeuristic_def quick_priority_rule_def cell_at_in_range)

lemma every_Boolean_cell_at: "every_Boolean b \<Longrightarrow> cell_at b i \<noteq> None \<or> length b \<le> i"
  by (auto simp: every_Boolean_def cell_at_def list_all_length)

lemma quickHeuristic_full: "length b = 9 \<Longrightarrow> every_Boolean b \<Longrightarrow> quickHeuristic b = - 1"
  by (simp add: quickHeuristic_def every_Boolean_def cell_at_def list_all_length)

text \<open>
  C4. On a board of nine cells the quick strategy of \<open>chooseBestMove\<close> follows the fixed
  priority rule \<open>quick_priority_rule\<close>: the centre 4 if it is empty, else the first empty
  corner in the order 0, 2, 6, 8, else the first empty edge in the order 1, 3, 5, 7, else
  \<open>-1\<close>; and \<open>-1\<close> is the answer when no cell is empty.
\<close>

theorem quick_follows_priority_rule:
  "length b = 9 \<Longrightarrow> strategy r = Some ''quick'' \<Longrightarrow>
   chooseBestMove (JsArray b) aiPlayer (Some r) = Inr (quick_priority_rule b) \<and>
   (every_Boolean b \<longrightarrow> quick_priority_rule b = - 1)"
  using quickHeuristic_rule [of b] quickHeuristic_full [of b]
  by (simp add: chooseBestMove_def Let_def)

theorem quick_follows_priority_rule_witness:
  "length board_c3 = 9 \<and>
   chooseBestMove (JsArray board_c3) MarkX (game_opts ''quick'' None) = Inr 0 \<and>
   quick_priority_rule board_c3 = 0"
proof -
  have a: "length board_c3 = 9" by (simp add: board_c3_def)
  have s: "strategy \<lparr>strategy = Some ''quick'', depth = None, computeWinner_of = Some computeWinner\<rparr> = Some ''quick''"
    by simp
  have q: "quick_priority_rule board_c3 = 0"
    by (simp add: quick_priority_rule_def board_c3_def)
  from quick_follows_priority_rule [OF a s, of MarkX] a q show ?thesis
    by (simp add: game_opts_def)
qed

text \<open>
  C8. When the board argument is no array, or an array whose length is not 9,
  \<open>chooseBestMove\<close> returns \<open>-1\<close> as an ordinary value (never the thrown error), whatever
  the AI side and the options are, also when the options are missing.
\<close>

theorem chooseBestMove_invalid_board:
  "chooseBestMove NotArray aiPlayer opts_arg = Inr (- 1) \<and>
   (length b \<noteq> 9 \<longrightarrow> chooseBestMove (JsArray b) aiPlayer opts_arg = Inr (- 1))"
  by (simp add: chooseBestMove_def Let_def)

theorem chooseBestMove_invalid_board_witness:
  "chooseBestMove NotArray MarkX None = Inr (- 1) \<and>
   chooseBestMove (JsArray [None, Some MarkX]) MarkX None = Inr (- 1)"
  using chooseBestMove_invalid_board [of MarkX None "[None, Some MarkX]"] by simp

lemma minimax_terminal:
  "terminalScore cw aiPlayer b depthLeft = Some t \<Longrightarrow>
   minimax cw aiPlayer b player depthLeft = (\<lparr>score = Finite t, move = - 1\<rparr>, b)"
  by (subst minimax.simps) simp

lemma terminalScore_full: "every_Boolean b \<Longrightarrow> terminalScore cw aiPlayer b d \<noteq> None"
  by (simp add: terminalScore_def Let_def)

lemma minimaxDriver_full: "every_Boolean b \<Longrightarrow> minimaxDriver b aiPlayer maxDepth cw = - 1"
  using terminalScore_full [of b cw aiPlayer "nat (effectiveDepth maxDepth)"]
  by (auto simp: minimaxDriver_def minimaxDriver_run_def minimax_terminal)

text \<open>
  C7. On a full board of nine cells \<open>chooseBestMove\<close> returns \<open>-1\<close> as an ordinary value
  under the quick and under the minimax strategy, for every AI side, every depth and every
  injected classifier.
\<close>

theorem full_board_no_move:
  "length b = 9 \<Longrightarrow> every_Boolean b \<Longrightarrow>
   chooseBestMove (JsArray b) aiPlayer (Some \<lparr>strategy = Some ''quick'', depth = d, computeWinner_of = c\<rparr>) = Inr (- 1) \<and>
   chooseBestMove (JsArray b) aiPlayer (Some \<lparr>strategy = Some ''minimax'', depth = d, computeWinner_of = Some cw\<rparr>) = Inr (- 1)"
  by (simp add: chooseBestMove_def Let_def quickHeuristic_full minimaxDriver_full)

theorem full_board_no_move_witness:
  "length (board_c3[0 := Some MarkO, 1 := Some MarkX, 2 := Some MarkO]) = 9 \<and>
   every_Boolean (board_c3[0 := Some MarkO, 1 := Some MarkX, 2 := Some MarkO]) \<and>
   chooseBestMove (JsArray (board_c3[0 := Some MarkO, 1 := Some MarkX, 2 := Some MarkO])) MarkX
     (Some \<lparr>strategy = Some ''quick'', depth = None, computeWinner_of = None\<rparr>) = Inr (- 1) \<and>
   chooseBestMove (JsArray (board_c3[0 := Some MarkO, 1 := Some MarkX, 2 := Some MarkO])) MarkX
     (Some \<lparr>strategy = Some ''minimax'', depth = None, computeWinner_of = Some computeWinner\<rparr>) = Inr (- 1)"
proof -
  let ?b = "board_c3[0 := Some MarkO, 1 := Some MarkX, 2 := Some MarkO]"
  have a: "length ?b = 9" by (simp add: board_c3_def)
  have f: "every_Boolean ?b" by (simp add: board_c3_def every_Boolean_def)
  from full_board_no_move [OF a f, of MarkX None None computeWinner] a f show ?thesis by simp
qed

lemma length_slice_last: "length (slice_last n xs) \<le> n"
  by (simp add: slice_last_def)

lemma slice_last_short: "length xs \<le> n \<Longrightarrow> slice_last n xs = xs"
  by (simp add: slice_last_def)

lemma slice_last_append: "slice_last n (slice_last n xs @ ys) = slice_last n (xs @ ys)"
proof -
  have "length xs + length ys - (length xs - n + n) + (length xs - n) = length xs + length ys - n"
    by arith
  then show ?thesis by (simp add: slice_last_def)
qed

lemma logEvent_slice: "logEvent payload buffer = slice_last MAX_LOGS (buffer @ [payload])"
  by (simp add: logEvent_def Let_def slice_last_short)

lemma fold_logEvent_slice:
  "fold logEvent events (slice_last MAX_LOGS xs) = slice_last MAX_LOGS (xs @ events)"
proof (induction events arbitrary: xs)
  case Nil
  show ?case by simp
next
  case (Cons e events)
  have "logEvent e (slice_last MAX_LOGS xs) = slice_last MAX_LOGS (xs @ [e])"
    by (simp only: logEvent_slice slice_last_append)
  then show ?case using Cons.IH [of "xs @ [e]"] by simp
qed

lemma init_buffer_slice:
  "init_buffer stored = slice_last MAX_LOGS (case stored of None \<Rightarrow> [] | Some arr \<Rightarrow> arr)"
  by (simp add: init_buffer_def slice_last_def split: option.splits)

text \<open>
  C10. Whatever array was stored when the module was initialised (\<open>None\<close>: nothing
  usable) and whatever events are logged afterwards, \<open>getAuditLog\<close> returns the most
  recent 100 entries of the stored entries followed by the logged events, all of them
  if there are fewer; so it never returns more than 100 entries. This holds after every
  append, since \<open>events\<close> is any sequence, and with no event it is what the restore
  leaves.
\<close>

theorem audit_log_keeps_latest_100:
  "getAuditLog (fold logEvent events (init_buffer stored))
     = drop (length ((case stored of None \<Rightarrow> [] | Some arr \<Rightarrow> arr) @ events) - 100)
         ((case stored of None \<Rightarrow> [] | Some arr \<Rightarrow> arr) @ events) \<and>
   length (getAuditLog (fold logEvent events (init_buffer stored))) \<le> 100"
proof -
  let ?all = "(case stored of None \<Rightarrow> [] | Some arr \<Rightarrow> arr) @ events"
  have "getAuditLog (fold logEvent events (init_buffer stored)) = slice_last MAX_LOGS ?all"
    by (simp only: getAuditLog_def init_buffer_slice fold_logEvent_slice)
  then show ?thesis
    using length_slice_last [of MAX_LOGS ?all]
    by (simp add: slice_last_def MAX_LOGS_def)
qed

section \<open>Nodes of the search\<close>

lemma set_availableMoves: "set (availableMoves b) = {m. m < 9 \<and> cell_at b m = None}"
  by (auto simp: availableMoves_def)

lemma sorted_availableMoves: "sorted_wrt (<) (availableMoves b)"
  unfolding availableMoves_def by (rule sorted_wrt_filter) simp

lemma availableMoves_nonempty:
  assumes "length b = 9" and "\<not> every_Boolean b"
  shows "availableMoves b \<noteq> []"
proof -
  from assms(2) obtain i where "i < length b" and "b ! i = None"
    by (auto simp: every_Boolean_def list_all_length)
  with assms(1) have "i \<in> set (availableMoves b)"
    by (simp add: set_availableMoves cell_at_def)
  then show ?thesis by auto
qed

lemma other_neq: "other a \<noteq> a"
  by (simp add: other_def)

lemma mark_cases: "w = Some a \<or> w = Some (other a) \<or> w = None"
  by (cases w; cases a) (auto simp: other_def intro: mark.exhaust)

lemma terminalScore_None:
  "terminalScore cw aiPlayer b d = None \<longleftrightarrow>
     cw b \<noteq> Some aiPlayer \<and> cw b \<noteq> Some (other aiPlayer) \<and> \<not> every_Boolean b"
  by (simp add: terminalScore_def Let_def)

lemma minimax_depth_0:
  "fst (minimax cw aiPlayer b player 0)
     = \<lparr>score = Finite (case terminalScore cw aiPlayer b 0 of Some s \<Rightarrow> s | None \<Rightarrow> 0), move = - 1\<rparr>"
  by (subst minimax.simps) simp

lemma fold_pick:
  assumes "ms \<noteq> []" and "\<forall>m\<in>set ms. \<exists>v. score (r m) = Finite v"
  shows "\<exists>i<length ms.
           fold (\<lambda>m best. keep_best aiPlayer player m (r m) best) ms (initial_best aiPlayer player)
             = \<lparr>score = score (r (ms ! i)), move = int (ms ! i)\<rparr> \<and>
           (\<forall>j<length ms. \<not> better aiPlayer player (score (r (ms ! j))) (score (r (ms ! i)))) \<and>
           (\<forall>j<i. better aiPlayer player (score (r (ms ! i))) (score (r (ms ! j))))"
proof -
  let ?res = "fold (\<lambda>m best. keep_best aiPlayer player m (r m) best) ms (initial_best aiPlayer player)"
  note f = fold_keep_best [of ms aiPlayer player r "initial_best aiPlayer player"]
  from assms(1) have l0: "0 < length ms" by simp
  then have "ms ! 0 \<in> set ms" by simp
  with assms(2) obtain v where v: "score (r (ms ! 0)) = Finite v" by blast
  from f l0 have "\<not> better aiPlayer player (score (r (ms ! 0))) (score ?res)" by blast
  with v have "?res \<noteq> initial_best aiPlayer player"
    using better_initial [of aiPlayer player v] by auto
  with f obtain i where i: "i < length ms"
      "?res = \<lparr>score = score (r (ms ! i)), move = int (ms ! i)\<rparr>"
      "\<forall>j<i. better aiPlayer player (score (r (ms ! i))) (score (r (ms ! j)))"
    by blast
  from f have "\<forall>j<length ms. \<not> better aiPlayer player (score (r (ms ! j))) (score ?res)"
    by blast
  with i(2) have "\<forall>j<length ms. \<not> better aiPlayer player (score (r (ms ! j))) (score (r (ms ! i)))"
    by simp
  with i show ?thesis by blast
qed

lemma minimax_finite:
  "length b = 9 \<Longrightarrow> \<exists>v. score (fst (minimax cw aiPlayer b player d)) = Finite v"
proof (induction d arbitrary: b player)
  case 0
  show ?case by (simp add: minimax_depth_0)
next
  case (Suc d)
  show ?case
  proof (cases "terminalScore cw aiPlayer b (Suc d)")
    case (Some t)
    then show ?thesis by (simp add: minimax_terminal)
  next
    case None
    then have "\<not> every_Boolean b" by (simp add: terminalScore_None)
    with Suc.prems have ne: "availableMoves b \<noteq> []" by (rule availableMoves_nonempty)
    have fin: "\<forall>m\<in>set (availableMoves b). \<exists>v. score (child cw aiPlayer b player d m) = Finite v"
      using Suc.IH Suc.prems by (simp add: child_def)
    from fold_pick [OF ne fin, of aiPlayer player] fin
    show ?thesis by (auto simp: minimax_node [OF None])
  qed
qed

lemma child_finite:
  "length b = 9 \<Longrightarrow> \<exists>v. score (child cw aiPlayer b player d m) = Finite v"
  by (simp add: child_def minimax_finite)

lemma minimax_pick:
  assumes "length b = 9" and "terminalScore cw aiPlayer b (Suc d) = None"
  shows "\<exists>i<length (availableMoves b).
           fst (minimax cw aiPlayer b player (Suc d))
             = \<lparr>score = score (child cw aiPlayer b player d (availableMoves b ! i)),
                move = int (availableMoves b ! i)\<rparr> \<and>
           (\<forall>j<length (availableMoves b).
              \<not> better aiPlayer player (score (child cw aiPlayer b player d (availableMoves b ! j)))
                   (score (child cw aiPlayer b player d (availableMoves b ! i)))) \<and>
           (\<forall>j<i. better aiPlayer player (score (child cw aiPlayer b player d (availableMoves b ! i)))
                   (score (child cw aiPlayer b player d (availableMoves b ! j))))"
proof -
  from assms(2) have "\<not> every_Boolean b" by (simp add: terminalScore_None)
  with assms(1) have ne: "availableMoves b \<noteq> []" by (rule availableMoves_nonempty)
  have fin: "\<forall>m\<in>set (availableMoves b). \<exists>v. score (child cw aiPlayer b player d m) = Finite v"
    using assms(1) by (simp add: child_finite)
  show ?thesis
    unfolding minimax_node [OF assms(2)] by (rule fold_pick [OF ne fin])
qed

section \<open>Properties of the move selector\<close>

lemma effectiveDepth_range: "1 \<le> effectiveDepth d \<and> effectiveDepth d \<le> 9"
  by (simp add: effectiveDepth_def)

lemma effectiveDepth_Suc: "\<exists>k. nat (effectiveDepth d) = Suc k"
proof -
  have "0 < nat (effectiveDepth d)" using effectiveDepth_range [of d] by simp
  then show ?thesis by (simp add: gr0_conv_Suc)
qed

lemma effectiveDepth_cases:
  "effectiveDepth d = (if d = 0 \<or> 9 < d then 9 else if d < 0 then 1 else d)"
  by (simp add: effectiveDepth_def)

lemma negative_depth_as_depth_1:
  "d < 0 \<Longrightarrow>
   chooseBestMove a aiPlayer (Some (r\<lparr>depth := Some d\<rparr>))
     = chooseBestMove a aiPlayer (Some (r\<lparr>depth := Some 1\<rparr>))"
  by (simp add: chooseBestMove_def Let_def minimaxDriver_def minimaxDriver_run_def
      effectiveDepth_cases split: js_arg.splits option.splits)

lemma first_empty_cases:
  "(first_empty b xs rest = rest \<and> (\<forall>i\<in>set xs. cell_at b i \<noteq> None)) \<or>
   (\<exists>i\<in>set xs. first_empty b xs rest = int i \<and> cell_at b i = None)"
  by (induction xs) auto

lemma less_9_cases:
  "i < 9 \<Longrightarrow> i \<in> set [4, 0, 2, 6, 8, 1, 3, 5, 7::nat]"
  by (auto simp: numeral_eq_Suc less_Suc_eq)

lemma quickHeuristic_empty_cell:
  assumes "length b = 9" and "\<not> every_Boolean b"
  shows "\<exists>i<9. quickHeuristic b = int i \<and> cell_at b i = None"
proof -
  from assms(2) obtain k where "k < length b" and "b ! k = None"
    by (auto simp: every_Boolean_def list_all_length)
  with assms(1) have k: "k < 9" "cell_at b k = None" by (simp_all add: cell_at_def)
  then have kin: "k = 4 \<or> k \<in> set [0, 2, 6, 8] \<or> k \<in> set [1, 3, 5, 7]"
    using less_9_cases [of k] by auto
  show ?thesis
  proof (cases "cell_at b 4 = None")
    case True
    then show ?thesis by (auto simp: quickHeuristic_def)
  next
    case c4: False
    have q: "quickHeuristic b = first_empty b [0, 2, 6, 8] (first_empty b [1, 3, 5, 7] (- 1))"
      unfolding quickHeuristic_def Let_def by (simp only: c4 if_False)
    from first_empty_cases [of b "[0, 2, 6, 8]" "first_empty b [1, 3, 5, 7] (- 1)"]
    show ?thesis
    proof
      assume a: "first_empty b [0, 2, 6, 8] (first_empty b [1, 3, 5, 7] (- 1)) = first_empty b [1, 3, 5, 7] (- 1)
                 \<and> (\<forall>i\<in>set [0, 2, 6, 8]. cell_at b i \<noteq> None)"
      from first_empty_cases [of b "[1, 3, 5, 7]" "- 1"]
      show ?thesis
      proof
        assume "first_empty b [1, 3, 5, 7] (- 1) = - 1 \<and> (\<forall>i\<in>set [1, 3, 5, 7]. cell_at b i \<noteq> None)"
        with a c4 kin k(2) show ?thesis by (auto simp del: first_empty.simps)
      next
        assume "\<exists>i\<in>set [1, 3, 5, 7]. first_empty b [1, 3, 5, 7] (- 1) = int i \<and> cell_at b i = None"
        then obtain i where "i \<in> set [1, 3, 5, 7]" "first_empty b [1, 3, 5, 7] (- 1) = int i" "cell_at b i = None"
          by blast
        with a q show ?thesis by (intro exI [of _ i]) (auto simp del: first_empty.simps)
      qed
    next
      assume "\<exists>i\<in>set [0, 2, 6, 8]. first_empty b [0, 2, 6, 8] (first_empty b [1, 3, 5, 7] (- 1)) = int i \<and> cell_at b i = None"
      then obtain i where "i \<in> set [0, 2, 6, 8]"
        "first_empty b [0, 2, 6, 8] (first_empty b [1, 3, 5, 7] (- 1)) = int i" "cell_at b i = None"
        by blast
      with q show ?thesis by (intro exI [of _ i]) (auto simp del: first_empty.simps)
    qed
  qed
qed

lemma minimaxDriver_empty_cell:
  assumes "length b = 9" and "\<not> every_Boolean b" and "cw b = None"
  shows "\<exists>i<9. minimaxDriver b aiPlayer maxDepth cw = int i \<and> cell_at b i = None"
proof -
  obtain k where k: "nat (effectiveDepth maxDepth) = Suc k"
    using effectiveDepth_Suc by blast
  from assms(2,3) have t: "terminalScore cw aiPlayer b (Suc k) = None"
    by (simp add: terminalScore_None)
  from minimax_pick [OF assms(1) t, of aiPlayer] obtain i where
    i: "i < length (availableMoves b)"
    "move (fst (minimax cw aiPlayer b aiPlayer (Suc k))) = int (availableMoves b ! i)"
    by auto
  from i(1) have "availableMoves b ! i \<in> set (availableMoves b)" by simp
  then have "availableMoves b ! i < 9" "cell_at b (availableMoves b ! i) = None"
    by (simp_all add: set_availableMoves)
  with i(2) k show ?thesis
    by (auto simp: minimaxDriver_def minimaxDriver_run_def)
qed

text \<open>
  C2, as amended. On a board of nine cells with an empty cell, \<open>chooseBestMove\<close> returns an
  index from 0 to 8 of an empty cell of that board, for every AI side and every depth:
  under the quick strategy always, and under the minimax strategy when the classifier
  reports no winner on the board.
\<close>

theorem chooseBestMove_empty_cell:
  assumes "length b = 9" and "\<not> every_Boolean b" and "s = ''quick'' \<or> cw b = None"
  shows "\<exists>i<9. chooseBestMove (JsArray b) aiPlayer
                  (Some \<lparr>strategy = Some s, depth = d, computeWinner_of = Some cw\<rparr>) = Inr (int i)
               \<and> cell_at b i = None"
proof (cases "s = ''quick''")
  case True
  with quickHeuristic_empty_cell [OF assms(1,2)] assms(1) show ?thesis
    by (simp add: chooseBestMove_def Let_def)
next
  case False
  with assms(3) have "cw b = None" by simp
  from minimaxDriver_empty_cell [where cw = cw and b = b, OF assms(1,2) this] False assms(1) show ?thesis
    by (simp add: chooseBestMove_def Let_def)
qed

lemma computeWinner_board_c2: "computeWinner board_c2 = Some MarkX"
  by (simp add: board_c2_def computeWinner_def lines_def cell_at_def)

theorem chooseBestMove_empty_cell_witness:
  "length board_c3 = 9 \<and> \<not> every_Boolean board_c3 \<and> computeWinner board_c3 = None \<and>
   (\<exists>i<9. chooseBestMove (JsArray board_c3) MarkX
             (Some \<lparr>strategy = Some ''minimax'', depth = Some 1, computeWinner_of = Some computeWinner\<rparr>)
             = Inr (int i) \<and> cell_at board_c3 i = None)"
proof -
  have a: "length board_c3 = 9" by (simp add: board_c3_def)
  have b: "\<not> every_Boolean board_c3" by (simp add: board_c3_def every_Boolean_def)
  have c: "computeWinner board_c3 = None"
    by (simp add: board_c3_def computeWinner_def lines_def cell_at_def)
  then have c': "''minimax'' = ''quick'' \<or> computeWinner board_c3 = None" by simp
  from chooseBestMove_empty_cell [where b = board_c3 and cw = computeWinner and s = "''minimax''", OF a b c'] a b c
  show ?thesis by blast
qed

lemma won_root_no_move:
  assumes "length b = 9" and "cw b = Some w" and "s \<noteq> ''quick''"
  shows "chooseBestMove (JsArray b) aiPlayer
           (Some \<lparr>strategy = Some s, depth = d, computeWinner_of = Some cw\<rparr>) = Inr (- 1)"
proof -
  have "minimaxDriver b aiPlayer k cw = - 1" for k
  proof -
    from assms(2) have "terminalScore cw aiPlayer b (nat (effectiveDepth k)) \<noteq> None"
      using mark_cases [of "Some w" aiPlayer] by (auto simp: terminalScore_def Let_def)
    then obtain t where "terminalScore cw aiPlayer b (nat (effectiveDepth k)) = Some t"
      by blast
    then show ?thesis
      by (simp add: minimaxDriver_def minimaxDriver_run_def minimax_terminal)
  qed
  then show ?thesis using assms(1,3) by (simp add: chooseBestMove_def Let_def)
qed

text \<open>
  C2 as stated fails: on \<open>board_c2\<close>, where X has completed the top row and cell 5 is
  empty, the minimax strategy returns \<open>-1\<close>, because the search treats a decided board as
  a leaf.
\<close>

theorem won_board_with_empty_cell_no_move:
  "length board_c2 = 9 \<and> cell_at board_c2 5 = None \<and>
   chooseBestMove (JsArray board_c2) MarkO (game_opts ''minimax'' (Some 9)) = Inr (- 1)"
proof -
  have "terminalScore computeWinner MarkO board_c2 (nat (effectiveDepth 9)) = Some (- 10 - int (nat (effectiveDepth 9)))"
    by (simp add: terminalScore_def Let_def computeWinner_board_c2 other_def)
  then have "minimaxDriver board_c2 MarkO 9 computeWinner = - 1"
    by (simp add: minimaxDriver_def minimaxDriver_run_def minimax_terminal)
  then show ?thesis
    by (simp add: chooseBestMove_def game_opts_def Let_def) (simp add: board_c2_def cell_at_def)
qed

text \<open>
  C3. The claim says that every depth below 1 is raised to 1. The depth 0 is searched nine
  plies deep instead: on \<open>board_c3\<close> with X to move, depth 0 blocks at cell 2, which only
  a search of two plies or more finds, and depth 1 takes cell 0.
\<close>

theorem depth_zero_searches_nine_plies:
  "effectiveDepth 0 = 9 \<and> effectiveDepth 1 = 1 \<and>
   chooseBestMove (JsArray board_c3) MarkX (game_opts ''minimax'' (Some 0)) = Inr 2 \<and>
   chooseBestMove (JsArray board_c3) MarkX (game_opts ''minimax'' (Some 1)) = Inr 0"
  by code_simp

lemma nth_less_sorted:
  assumes "sorted_wrt (<) (ms :: nat list)" and "i < length ms" and "j < length ms"
    and "ms ! j < ms ! i"
  shows "j < i"
proof (rule ccontr)
  assume "\<not> j < i"
  then have "i = j \<or> i < j" by auto
  then show False
  proof
    assume "i = j" with assms(4) show False by simp
  next
    assume "i < j"
    with assms(1,3) have "ms ! i < ms ! j" by (simp add: sorted_wrt_nth_less)
    with assms(4) show False by simp
  qed
qed

text \<open>
  C5. At every node of the search that recurses (nine cells, no terminal score, depth
  left), the candidates are enumerated in ascending index order and the result is the
  score and index of a candidate \<open>m\<close> such that no candidate is strictly better for the
  player to move, every candidate of lower index is strictly worse, and so every
  candidate with the same score has an index of at least \<open>m\<close>. The search is a function
  of its arguments, so equal inputs give equal outputs.
\<close>

theorem minimax_keeps_first_best_child:
  assumes "length b = 9" and "terminalScore cw aiPlayer b (Suc d) = None"
  shows "sorted_wrt (<) (availableMoves b) \<and>
         (\<exists>m\<in>set (availableMoves b).
            fst (minimax cw aiPlayer b player (Suc d))
              = \<lparr>score = score (child cw aiPlayer b player d m), move = int m\<rparr> \<and>
            (\<forall>n\<in>set (availableMoves b).
               \<not> better aiPlayer player (score (child cw aiPlayer b player d n))
                    (score (child cw aiPlayer b player d m))) \<and>
            (\<forall>n\<in>set (availableMoves b).
               n < m \<longrightarrow> better aiPlayer player (score (child cw aiPlayer b player d m))
                             (score (child cw aiPlayer b player d n))) \<and>
            (\<forall>n\<in>set (availableMoves b).
               score (child cw aiPlayer b player d n) = score (child cw aiPlayer b player d m)
                 \<longrightarrow> m \<le> n))"
proof -
  let ?ms = "availableMoves b"
  let ?s = "\<lambda>m. score (child cw aiPlayer b player d m)"
  from minimax_pick [OF assms, of player] obtain i where
    i: "i < length ?ms"
    "fst (minimax cw aiPlayer b player (Suc d)) = \<lparr>score = ?s (?ms ! i), move = int (?ms ! i)\<rparr>"
    "\<forall>j<length ?ms. \<not> better aiPlayer player (?s (?ms ! j)) (?s (?ms ! i))"
    "\<forall>j<i. better aiPlayer player (?s (?ms ! i)) (?s (?ms ! j))"
    by blast
  have lower: "better aiPlayer player (?s (?ms ! i)) (?s n)" if "n \<in> set ?ms" "n < ?ms ! i" for n
  proof -
    from that(1) obtain j where j: "j < length ?ms" "?ms ! j = n"
      by (auto simp: in_set_conv_nth)
    with that(2) have "j < i"
      using nth_less_sorted [OF sorted_availableMoves i(1) j(1)] by simp
    with i(4) j(2) show ?thesis by auto
  qed
  have a: "\<forall>n\<in>set ?ms. \<not> better aiPlayer player (?s n) (?s (?ms ! i))"
    using i(3) by (auto simp: in_set_conv_nth)
  have c: "\<forall>n\<in>set ?ms. ?s n = ?s (?ms ! i) \<longrightarrow> ?ms ! i \<le> n"
  proof (intro ballI impI)
    fix n assume n: "n \<in> set ?ms" "?s n = ?s (?ms ! i)"
    show "?ms ! i \<le> n"
    proof (rule ccontr)
      assume "\<not> ?ms ! i \<le> n"
      then have "n < ?ms ! i" by simp
      from lower [OF n(1) this] n(2) show False by (simp add: better_irrefl)
    qed
  qed
  from i(1) have "?ms ! i \<in> set ?ms" by simp
  with i(2) a lower c sorted_availableMoves show ?thesis by blast
qed

theorem minimax_keeps_first_best_child_witness:
  "length board_c3 = 9 \<and> terminalScore computeWinner MarkX board_c3 (Suc 8) = None \<and>
   sorted_wrt (<) (availableMoves board_c3) \<and>
   (\<exists>m\<in>set (availableMoves board_c3).
      fst (minimax computeWinner MarkX board_c3 MarkX (Suc 8))
        = \<lparr>score = score (child computeWinner MarkX board_c3 MarkX 8 m), move = int m\<rparr> \<and>
      (\<exists>n\<in>set (availableMoves board_c3).
         \<not> better MarkX MarkX (score (child computeWinner MarkX board_c3 MarkX 8 n))
              (score (child computeWinner MarkX board_c3 MarkX 8 m))))"
proof -
  have a: "length board_c3 = 9" by (simp add: board_c3_def)
  have "computeWinner board_c3 = None"
    by (simp add: board_c3_def computeWinner_def lines_def cell_at_def)
  moreover have "\<not> every_Boolean board_c3" by (simp add: board_c3_def every_Boolean_def)
  ultimately have t: "terminalScore computeWinner MarkX board_c3 (Suc 8) = None"
    by (simp add: terminalScore_None)
  from minimax_keeps_first_best_child [OF a t, of MarkX] a t show ?thesis by blast
qed

text \<open>
  C6. The search writes only to its scratch copy, and for a board of nine cells that copy
  is again equal to the caller's board when the driver returns, as is the array of every
  recursive call when that call returns: every mark placed is retracted.
\<close>

theorem search_restores_board:
  "length b = 9 \<Longrightarrow>
   snd (minimaxDriver_run b aiPlayer maxDepth cw) = b \<and>
   snd (minimax cw aiPlayer b player depthLeft) = b"
  by (simp add: minimaxDriver_run_def minimax_restores)

theorem search_restores_board_witness:
  "length board_c3 = 9 \<and>
   snd (minimaxDriver_run board_c3 MarkX 9 computeWinner) = board_c3 \<and>
   snd (minimax computeWinner MarkX board_c3 MarkO 2) = board_c3"
proof -
  have a: "length board_c3 = 9" by (simp add: board_c3_def)
  from search_restores_board [OF a] a show ?thesis by simp
qed

lemma makeMove_cell_index:
  assumes "length (cells (board g)) = 9"
  shows "(to_reject (Num (of_int i)) g \<longrightarrow> makeMove plus1 (Num (of_int i)) g = (False, g)) \<and>
         (\<not> to_reject (Num (of_int i)) g \<longrightarrow>
            fst (makeMove plus1 (Num (of_int i)) g) = True \<and> 0 \<le> i \<and> i \<le> 8 \<and>
            cells (board (snd (makeMove plus1 (Num (of_int i)) g)))
              = (cells (board g))[nat i := Some (currentPlayer g)])"
proof (cases "to_reject (Num (of_int i)) g")
  case True
  then show ?thesis
    by (auto simp: to_reject_def makeMove_def index_refused_def read_at_def
        is_element_index_def element_index_def)
next
  case False
  then have i: "0 \<le> i" "i \<le> 8" "cell_at (cells (board g)) (nat i) = None"
    "winner g = None" "\<not> isDraw g"
    by (auto simp: to_reject_def)
  then have r: "\<not> index_refused (Num (of_int i))" "read_at (board g) (Num (of_int i)) = None"
    by (simp_all add: index_refused_def read_at_def is_element_index_def element_index_def)
  have "fst (makeMove plus1 (Num (of_int i)) g) = True"
    using i r by (simp add: makeMove_def Let_def split: prod.splits)
  moreover have "cells (board (snd (makeMove plus1 (Num (of_int i)) g)))
                   = (cells (board g))[nat i := Some (currentPlayer g)]"
    using i r
    by (auto simp: makeMove_def Let_def updateOutcome_def write_at_def spread_def
        is_element_index_def element_index_def split: prod.splits option.splits)
  ultimately show ?thesis using False i by simp
qed

lemma makeMove_no_number:
  "index \<in> {NotNumber, MinusInfinity, PlusInfinity} \<Longrightarrow> makeMove plus1 index g = (False, g)"
  by (auto simp: makeMove_def index_refused_def)

text \<open>
  C9. The claim says that \<open>makeMove\<close> rejects an index that is no number from 0 to 8 and
  leaves the state unchanged. For the index \<^verbatim>\<open>NaN\<close> on a fresh game the call returns
  true instead: both comparisons of the guard are false, \<^verbatim>\<open>board[NaN]\<close> is undefined,
  the mark is stored under the property key \<^verbatim>\<open>NaN\<close> of the new array, no cell is
  marked, and the turn passes from X to O.
\<close>

theorem makeMove_accepts_NaN:
  "fst (makeMove plus1_int NaN game_c9) = True \<and>
   cells (board (snd (makeMove plus1_int NaN game_c9))) = cells (board game_c9) \<and>
   props (board (snd (makeMove plus1_int NaN game_c9))) NaN = Some MarkX \<and>
   currentPlayer game_c9 = MarkX \<and>
   currentPlayer (snd (makeMove plus1_int NaN game_c9)) = MarkO \<and>
   snd (makeMove plus1_int NaN game_c9) \<noteq> game_c9"
proof -
  have e: "computeWinner empty_board = None" "\<not> every_Boolean empty_board"
    by (simp_all add: empty_board_def computeWinner_def lines_def cell_at_def every_Boolean_def
        list_all_iff)
  have m: "makeMove plus1_int NaN game_c9
           = (True, game_c9\<lparr>board := \<lparr>cells = empty_board, props = (\<lambda>k. None)(NaN := Some MarkX)\<rparr>,
                             currentPlayer := MarkO\<rparr>)"
    by (simp add: makeMove_def game_c9_def initial_game_def index_refused_def read_at_def
        write_at_def spread_def is_element_index_def updateOutcome_def e other_def Let_def)
  have "currentPlayer (game_c9\<lparr>board := \<lparr>cells = empty_board, props = (\<lambda>k. None)(NaN := Some MarkX)\<rparr>,
                             currentPlayer := MarkO\<rparr>) \<noteq> currentPlayer game_c9"
    by (simp add: game_c9_def initial_game_def)
  then have "game_c9\<lparr>board := \<lparr>cells = empty_board, props = (\<lambda>k. None)(NaN := Some MarkX)\<rparr>,
                      currentPlayer := MarkO\<rparr> \<noteq> game_c9"
    by metis
  with m show ?thesis by (simp add: game_c9_def initial_game_def)
qed

section \<open>Playing against the full-depth search\<close>

lemma other_other: "other (other a) = a"
  by (cases a) (simp_all add: other_def)

lemma other_neq2: "a \<noteq> other a"
  by (simp add: other_def)

lemma some_of_iff: "some_of P xs \<longleftrightarrow> (\<exists>x\<in>set xs. P x)"
  by (induction xs) auto

lemma each_of_iff: "each_of P xs \<longleftrightarrow> (\<forall>x\<in>set xs. P x)"
  by (induction xs) auto

lemma set_preferred: "set preferred = {m. m < 9}"
  by (auto simp: preferred_def numeral_eq_Suc less_Suc_eq)

lemma set_descending: "set descending = {m. m < 9}"
  by (auto simp: descending_def numeral_eq_Suc less_Suc_eq)

lemma hinted_safe: "hinted ai n b p \<Longrightarrow> safe ai n b p"
proof (induction n arbitrary: b p)
  case 0
  then show ?case by simp
next
  case (Suc n)
  show ?case
  proof (cases "computeWinner b = Some ai \<or> computeWinner b = Some (other ai) \<or> every_Boolean b")
    case True
    with Suc.prems show ?thesis by (auto simp: Let_def other_neq other_neq2 split: if_splits)
  next
    case False
    show ?thesis
    proof (cases "p = ai")
      case True
      with False Suc.prems obtain m where "m \<in> set preferred" "cell_at b m = None"
        "hinted ai n (b[m := Some p]) (other p)"
        by (auto simp: Let_def some_of_iff split: if_splits)
      then have "m \<in> set (availableMoves b)" "safe ai n (b[m := Some p]) (other p)"
        using Suc.IH by (simp_all add: set_availableMoves set_preferred)
      with False True show ?thesis by (auto simp: list_ex_iff)
    next
      case np: False
      have "safe ai n (b[m := Some p]) (other p)" if "m \<in> set (availableMoves b)" for m
      proof -
        from that have "m \<in> set descending" "cell_at b m = None"
          by (simp_all add: set_availableMoves set_descending)
        with False np Suc.prems have "hinted ai n (b[m := Some p]) (other p)"
          by (auto simp: Let_def each_of_iff split: if_splits)
        then show ?thesis by (rule Suc.IH)
      qed
      with False np show ?thesis by (auto simp: list_all_iff)
    qed
  qed
qed

lemma safe_iff_score:
  "length b = 9 \<Longrightarrow>
   safe ai d b p \<longleftrightarrow> \<not> js_less (score (fst (minimax computeWinner ai b p d))) (Finite 0)"
proof (induction d arbitrary: b p)
  case 0
  show ?case
    using other_neq [of ai]
    by (auto simp: minimax_depth_0 terminalScore_def Let_def)
next
  case (Suc d)
  let ?ms = "availableMoves b"
  let ?s = "\<lambda>m. score (child computeWinner ai b p d m)"
  have ih: "safe ai d (b[m := Some p]) (other p) \<longleftrightarrow> \<not> js_less (?s m) (Finite 0)" for m
    using Suc.IH [of "b[m := Some p]" "other p"] Suc.prems by (simp add: child_def)
  show ?case
  proof (cases "terminalScore computeWinner ai b (Suc d)")
    case (Some t)
    then show ?thesis
      using other_neq [of ai]
      by (auto simp: minimax_terminal terminalScore_def Let_def split: if_splits)
  next
    case None
    then have nt: "computeWinner b \<noteq> Some ai" "computeWinner b \<noteq> Some (other ai)" "\<not> every_Boolean b"
      by (simp_all add: terminalScore_None)
    from minimax_pick [OF Suc.prems None, of p] obtain i where
      i: "i < length ?ms"
      "fst (minimax computeWinner ai b p (Suc d)) = \<lparr>score = ?s (?ms ! i), move = int (?ms ! i)\<rparr>"
      "\<forall>j<length ?ms. \<not> better ai p (?s (?ms ! j)) (?s (?ms ! i))"
      by blast
    from i(1) have mi: "?ms ! i \<in> set ?ms" by simp
    have top: "\<not> better ai p (?s m) (?s (?ms ! i))" if "m \<in> set ?ms" for m
      using that i(3) by (auto simp: in_set_conv_nth)
    show ?thesis
    proof (cases "p = ai")
      case True
      have eq: "(\<exists>m\<in>set ?ms. \<not> js_less (?s m) (Finite 0)) \<longleftrightarrow> \<not> js_less (?s (?ms ! i)) (Finite 0)"
      proof
        assume "\<exists>m\<in>set ?ms. \<not> js_less (?s m) (Finite 0)"
        then obtain m where m: "m \<in> set ?ms" "\<not> js_less (?s m) (Finite 0)" by blast
        from top [OF m(1)] True have "\<not> js_less (?s (?ms ! i)) (?s m)" by (simp add: better_def)
        from js_less_negtrans [OF this m(2)] show "\<not> js_less (?s (?ms ! i)) (Finite 0)" .
      next
        assume "\<not> js_less (?s (?ms ! i)) (Finite 0)"
        with mi show "\<exists>m\<in>set ?ms. \<not> js_less (?s m) (Finite 0)" by blast
      qed
      have "safe ai (Suc d) b p \<longleftrightarrow> (\<exists>m\<in>set ?ms. safe ai d (b[m := Some p]) (other p))"
        using nt True by (simp add: list_ex_iff)
      also have "\<dots> \<longleftrightarrow> (\<exists>m\<in>set ?ms. \<not> js_less (?s m) (Finite 0))"
        by (simp only: ih)
      also have "\<dots> \<longleftrightarrow> \<not> js_less (?s (?ms ! i)) (Finite 0)"
        by (rule eq)
      also have "\<dots> \<longleftrightarrow> \<not> js_less (score (fst (minimax computeWinner ai b p (Suc d)))) (Finite 0)"
        by (simp add: i(2))
      finally show ?thesis .
    next
      case False
      have eq: "(\<forall>m\<in>set ?ms. \<not> js_less (?s m) (Finite 0)) \<longleftrightarrow> \<not> js_less (?s (?ms ! i)) (Finite 0)"
      proof
        assume "\<forall>m\<in>set ?ms. \<not> js_less (?s m) (Finite 0)"
        with mi show "\<not> js_less (?s (?ms ! i)) (Finite 0)" by blast
      next
        assume a: "\<not> js_less (?s (?ms ! i)) (Finite 0)"
        show "\<forall>m\<in>set ?ms. \<not> js_less (?s m) (Finite 0)"
        proof
          fix m assume "m \<in> set ?ms"
          from top [OF this] False have "\<not> js_less (?s m) (?s (?ms ! i))" by (simp add: better_def)
          from js_less_negtrans [OF this a] show "\<not> js_less (?s m) (Finite 0)" .
        qed
      qed
      have "safe ai (Suc d) b p \<longleftrightarrow> (\<forall>m\<in>set ?ms. safe ai d (b[m := Some p]) (other p))"
        using nt False by (simp add: list_all_iff)
      also have "\<dots> \<longleftrightarrow> (\<forall>m\<in>set ?ms. \<not> js_less (?s m) (Finite 0))"
        by (simp only: ih)
      also have "\<dots> \<longleftrightarrow> \<not> js_less (?s (?ms ! i)) (Finite 0)"
        by (rule eq)
      also have "\<dots> \<longleftrightarrow> \<not> js_less (score (fst (minimax computeWinner ai b p (Suc d)))) (Finite 0)"
        by (simp add: i(2))
      finally show ?thesis .
    qed
  qed
qed

lemma cell_at_update:
  "cell_at (b[m := v]) i = (if i = m \<and> m < length b then v else cell_at b i)"
  by (auto simp: cell_at_def)

lemma availableMoves_update:
  assumes "m \<in> set (availableMoves b)" and "length b = 9"
  shows "length (availableMoves (b[m := Some p])) < length (availableMoves b)"
proof -
  from assms have m: "m < length b" by (simp add: set_availableMoves)
  have "availableMoves (b[m := Some p]) = filter (\<lambda>i. i \<noteq> m) (availableMoves b)"
    using m by (auto simp: availableMoves_def cell_at_update intro: filter_cong)
  with assms(1) show ?thesis by (simp add: length_filter_less)
qed

lemma length_availableMoves: "length (availableMoves b) \<le> 9"
proof -
  have "length (availableMoves b) \<le> length [0..<9]"
    unfolding availableMoves_def by (rule length_filter_le)
  then show ?thesis by simp
qed

lemma safe_more_fuel:
  "length b = 9 \<Longrightarrow> length (availableMoves b) \<le> n \<Longrightarrow> safe ai n b p \<Longrightarrow> safe ai (Suc n) b p"
proof (induction n arbitrary: b p)
  case 0
  then have "every_Boolean b" using availableMoves_nonempty [of b] by auto
  with 0 show ?case by (auto simp: other_neq other_neq2)
next
  case (Suc n)
  have step: "safe ai (Suc n) (b[m := Some p]) (other p)"
    if "m \<in> set (availableMoves b)" "safe ai n (b[m := Some p]) (other p)" for m
  proof -
    from availableMoves_update [OF that(1) Suc.prems(1), of p] Suc.prems(2)
    have "length (availableMoves (b[m := Some p])) \<le> n" by simp
    with Suc.IH [of "b[m := Some p]" "other p"] that(2) Suc.prems(1) show ?thesis by simp
  qed
  show ?case
  proof (cases "computeWinner b = Some ai \<or> computeWinner b = Some (other ai) \<or> every_Boolean b")
    case True
    with Suc.prems(3) show ?thesis by (auto simp: other_neq other_neq2 split: if_splits)
  next
    case False
    show ?thesis
    proof (cases "p = ai")
      case True
      with False Suc.prems(3) obtain m where "m \<in> set (availableMoves b)"
        "safe ai n (b[m := Some p]) (other p)"
        by (auto simp: list_ex_iff)
      with step have "\<exists>m\<in>set (availableMoves b). safe ai (Suc n) (b[m := Some p]) (other p)"
        by blast
      with False True show ?thesis
        by (subst safe.simps) (simp add: list_ex_iff del: safe.simps)
    next
      case np: False
      with False Suc.prems(3) have "\<forall>m\<in>set (availableMoves b). safe ai n (b[m := Some p]) (other p)"
        by (auto simp: list_all_iff)
      with step have "\<forall>m\<in>set (availableMoves b). safe ai (Suc n) (b[m := Some p]) (other p)"
        by blast
      with False np show ?thesis
        by (subst safe.simps) (simp add: list_all_iff del: safe.simps)
    qed
  qed
qed

subsection \<open>Evaluating positions of nine cells\<close>

lemma at9:
  "cell_at [c0, c1, c2, c3, c4, c5, c6, c7, c8] 0 = c0"
  "cell_at [c0, c1, c2, c3, c4, c5, c6, c7, c8] 1 = c1"
  "cell_at [c0, c1, c2, c3, c4, c5, c6, c7, c8] 2 = c2"
  "cell_at [c0, c1, c2, c3, c4, c5, c6, c7, c8] 3 = c3"
  "cell_at [c0, c1, c2, c3, c4, c5, c6, c7, c8] 4 = c4"
  "cell_at [c0, c1, c2, c3, c4, c5, c6, c7, c8] 5 = c5"
  "cell_at [c0, c1, c2, c3, c4, c5, c6, c7, c8] 6 = c6"
  "cell_at [c0, c1, c2, c3, c4, c5, c6, c7, c8] 7 = c7"
  "cell_at [c0, c1, c2, c3, c4, c5, c6, c7, c8] 8 = c8"
  by (simp_all add: cell_at_def)

lemma cw9:
  "computeWinner [c0, c1, c2, c3, c4, c5, c6, c7, c8] =
    (if c0 \<noteq> None \<and> c0 = c1 \<and> c0 = c2 then c0
     else if c3 \<noteq> None \<and> c3 = c4 \<and> c3 = c5 then c3
     else if c6 \<noteq> None \<and> c6 = c7 \<and> c6 = c8 then c6
     else if c0 \<noteq> None \<and> c0 = c3 \<and> c0 = c6 then c0
     else if c1 \<noteq> None \<and> c1 = c4 \<and> c1 = c7 then c1
     else if c2 \<noteq> None \<and> c2 = c5 \<and> c2 = c8 then c2
     else if c0 \<noteq> None \<and> c0 = c4 \<and> c0 = c8 then c0
     else if c2 \<noteq> None \<and> c2 = c4 \<and> c2 = c6 then c2
     else None)"
  unfolding computeWinner_def lines_def computeWinner_loop.simps at9 ..

lemma full9:
  "every_Boolean [c0, c1, c2, c3, c4, c5, c6, c7, c8] =
    (c0 \<noteq> None \<and> c1 \<noteq> None \<and> c2 \<noteq> None \<and> c3 \<noteq> None \<and> c4 \<noteq> None \<and>
     c5 \<noteq> None \<and> c6 \<noteq> None \<and> c7 \<noteq> None \<and> c8 \<noteq> None)"
  by (simp add: every_Boolean_def)

lemma upd9:
  "[c0, c1, c2, c3, c4, c5, c6, c7, c8][0 := v] = [v, c1, c2, c3, c4, c5, c6, c7, c8]"
  "[c0, c1, c2, c3, c4, c5, c6, c7, c8][1 := v] = [c0, v, c2, c3, c4, c5, c6, c7, c8]"
  "[c0, c1, c2, c3, c4, c5, c6, c7, c8][2 := v] = [c0, c1, v, c3, c4, c5, c6, c7, c8]"
  "[c0, c1, c2, c3, c4, c5, c6, c7, c8][3 := v] = [c0, c1, c2, v, c4, c5, c6, c7, c8]"
  "[c0, c1, c2, c3, c4, c5, c6, c7, c8][4 := v] = [c0, c1, c2, c3, v, c5, c6, c7, c8]"
  "[c0, c1, c2, c3, c4, c5, c6, c7, c8][5 := v] = [c0, c1, c2, c3, c4, v, c6, c7, c8]"
  "[c0, c1, c2, c3, c4, c5, c6, c7, c8][6 := v] = [c0, c1, c2, c3, c4, c5, v, c7, c8]"
  "[c0, c1, c2, c3, c4, c5, c6, c7, c8][7 := v] = [c0, c1, c2, c3, c4, c5, c6, v, c8]"
  "[c0, c1, c2, c3, c4, c5, c6, c7, c8][8 := v] = [c0, c1, c2, c3, c4, c5, c6, c7, v]"
  by (simp_all add: eval_nat_numeral)

lemma empty9: "empty_board = [None, None, None, None, None, None, None, None, None]"
  by (simp add: empty_board_def eval_nat_numeral)

lemma nine: "(9::nat) = Suc (Suc (Suc (Suc (Suc (Suc (Suc (Suc (Suc 0))))))))"
  by simp

lemmas eval_rules =
  hinted.simps some_of.simps each_of.simps cw9 full9 at9 upd9 preferred_def descending_def
  other_def Let_def if_True if_False option.distinct option.inject mark.distinct simp_thms refl

lemma hinted_X_X: "hinted MarkX 9 empty_board MarkX"
  unfolding nine empty9 by (simp only: eval_rules cong: if_weak_cong)

lemma hinted_X_O: "hinted MarkX 9 empty_board MarkO"
  unfolding nine empty9 by (simp only: eval_rules cong: if_weak_cong)

lemma hinted_O_X: "hinted MarkO 9 empty_board MarkX"
  unfolding nine empty9 by (simp only: eval_rules cong: if_weak_cong)

lemma hinted_O_O: "hinted MarkO 9 empty_board MarkO"
  unfolding nine empty9 by (simp only: eval_rules cong: if_weak_cong)

lemma safe_start: "safe ai 9 empty_board first"
proof -
  have "hinted ai 9 empty_board first"
    using hinted_X_X hinted_X_O hinted_O_X hinted_O_O
    by (cases ai; cases first) simp_all
  then show ?thesis by (rule hinted_safe)
qed

subsection \<open>The invariant of the game\<close>

lemma safe_step:
  assumes "n = Suc k" and "computeWinner b = None" and "\<not> every_Boolean b"
  shows "safe ai n b p \<longleftrightarrow>
           (if p = ai then (\<exists>m\<in>set (availableMoves b). safe ai k (b[m := Some p]) (other p))
            else (\<forall>m\<in>set (availableMoves b). safe ai k (b[m := Some p]) (other p)))"
  using assms by (simp add: list_ex_iff list_all_iff)

lemma safe_not_lost:
  assumes "n = Suc k" and "safe ai n b p"
  shows "computeWinner b \<noteq> Some (other ai)"
  using assms by (auto simp: other_neq2 split: if_splits)

lemma minimax_opts:
  "length b = 9 \<Longrightarrow>
   chooseBestMove (JsArray b) ai (game_opts ''minimax'' (Some 9))
     = Inr (move (fst (minimax computeWinner ai b ai (Suc 8))))"
  by (simp add: chooseBestMove_def game_opts_def Let_def minimaxDriver_def minimaxDriver_run_def
      effectiveDepth_def)

lemma safe_after_ai_move:
  assumes len: "length b = 9" and nt: "computeWinner b = None" "\<not> every_Boolean b"
    and s: "safe ai 9 b ai"
    and m: "chooseBestMove (JsArray b) ai (game_opts ''minimax'' (Some 9)) = Inr (int m)"
  shows "m \<in> set (availableMoves b) \<and> safe ai 9 (b[m := Some ai]) (other ai)"
proof -
  let ?ms = "availableMoves b"
  let ?s = "\<lambda>m. score (child computeWinner ai b ai 8 m)"
  have iff: "safe ai 8 (b[k := Some ai]) (other ai) \<longleftrightarrow> \<not> js_less (?s k) (Finite 0)" for k
    using safe_iff_score [of "b[k := Some ai]" ai 8 "other ai"] len by (simp add: child_def)
  from nt have t: "terminalScore computeWinner ai b (Suc 8) = None"
    by (simp add: terminalScore_None)
  from minimax_pick [OF len t, of ai] obtain i where
    i: "i < length ?ms"
    "fst (minimax computeWinner ai b ai (Suc 8)) = \<lparr>score = ?s (?ms ! i), move = int (?ms ! i)\<rparr>"
    "\<forall>j<length ?ms. \<not> better ai ai (?s (?ms ! j)) (?s (?ms ! i))"
    by blast
  from m i(2) len have mi: "m = ?ms ! i" by (simp add: minimax_opts)
  with i(1) have min: "m \<in> set ?ms" by simp
  from s obtain k where k: "k \<in> set ?ms" "safe ai 8 (b[k := Some ai]) (other ai)"
    using safe_step [of 9 8 b ai ai] nt by auto
  from k(1) i(3) have "\<not> better ai ai (?s k) (?s m)"
    unfolding mi by (auto simp: in_set_conv_nth)
  then have "\<not> js_less (?s m) (?s k)" by (simp add: better_def)
  moreover from k(2) have "\<not> js_less (?s k) (Finite 0)" using iff by blast
  ultimately have "\<not> js_less (?s m) (Finite 0)" by (rule js_less_negtrans)
  then have s8: "safe ai 8 (b[m := Some ai]) (other ai)" using iff by blast
  have "length (availableMoves (b[m := Some ai])) \<le> 8"
    using availableMoves_update [OF min len, of ai] length_availableMoves [of b] by simp
  with s8 len have "safe ai (Suc 8) (b[m := Some ai]) (other ai)"
    by (intro safe_more_fuel) simp_all
  with min show ?thesis by simp
qed

lemma safe_after_opponent_move:
  assumes len: "length b = 9" and nt: "computeWinner b = None" "\<not> every_Boolean b"
    and s: "safe ai 9 b (other ai)" and m: "m < 9" "cell_at b m = None"
  shows "safe ai 9 (b[m := Some (other ai)]) ai"
proof -
  from m have min: "m \<in> set (availableMoves b)" by (simp add: set_availableMoves)
  from s min have s8: "safe ai 8 (b[m := Some (other ai)]) ai"
    using safe_step [of 9 8 b ai "other ai"] nt by (auto simp: other_neq other_other)
  have "length (availableMoves (b[m := Some (other ai)])) \<le> 8"
    using availableMoves_update [OF min len, of "other ai"] length_availableMoves [of b] by simp
  with s8 len have "safe ai (Suc 8) (b[m := Some (other ai)]) ai"
    by (intro safe_more_fuel) simp_all
  then show ?thesis by simp
qed

lemma reach_safe: "reach ai b p \<Longrightarrow> length b = 9 \<and> safe ai 9 b p"
proof (induction rule: reach.induct)
  case (start first)
  show ?case by (simp add: safe_start) (simp add: empty_board_def)
next
  case (ai_moves b m)
  then show ?case using safe_after_ai_move [of b ai m] by simp
next
  case (opponent_moves b m)
  then show ?case using safe_after_opponent_move [of b ai m] by simp
qed

text \<open>
  C1. In a game from the empty board in which one side always plays the move
  \<open>chooseBestMove\<close> returns for strategy \<^verbatim>\<open>'minimax'\<close> and depth 9 and the other side
  plays any legal moves, no position is a win for the other side; and whenever the AI is
  to move in an unfinished game, \<open>chooseBestMove\<close> returns an empty cell, so the game goes
  on until a line is complete or the board is full.
\<close>

theorem full_depth_minimax_never_loses:
  "reach ai b p \<Longrightarrow>
   computeWinner b \<noteq> Some (other ai) \<and>
   (p = ai \<and> computeWinner b = None \<and> \<not> every_Boolean b \<longrightarrow>
      (\<exists>m<9. chooseBestMove (JsArray b) ai (game_opts ''minimax'' (Some 9)) = Inr (int m)
             \<and> cell_at b m = None))"
proof -
  assume r: "reach ai b p"
  then have len: "length b = 9" and s: "safe ai 9 b p" by (simp_all add: reach_safe)
  have "\<exists>m<9. chooseBestMove (JsArray b) ai (game_opts ''minimax'' (Some 9)) = Inr (int m)
             \<and> cell_at b m = None"
    if "computeWinner b = None" "\<not> every_Boolean b"
    using minimaxDriver_empty_cell [where cw = computeWinner and b = b, OF len that(2,1), of ai 9] len
    by (simp add: chooseBestMove_def game_opts_def Let_def)
  with safe_not_lost [of 9 8, OF _ s] show ?thesis by simp
qed

theorem full_depth_minimax_never_loses_witness:
  "reach MarkO (empty_board[4 := Some MarkX]) MarkO \<and>
   (\<exists>m<9. chooseBestMove (JsArray (empty_board[4 := Some MarkX])) MarkO
             (game_opts ''minimax'' (Some 9)) = Inr (int m) \<and>
          reach MarkO (empty_board[4 := Some MarkX, m := Some MarkO]) MarkX \<and>
          computeWinner (empty_board[4 := Some MarkX, m := Some MarkO]) \<noteq> Some MarkX)"
proof -
  let ?b = "empty_board[4 := Some MarkX]"
  let ?opts = "game_opts ''minimax'' (Some 9)"
  have o: "other MarkO = MarkX" by (simp add: other_def)
  have e: "computeWinner empty_board = None" "\<not> every_Boolean empty_board"
    "cell_at empty_board 4 = None"
    unfolding empty9 cw9 full9 at9 by simp_all
  have "reach MarkO empty_board (other MarkO)" by (rule reach.start)
  from reach.opponent_moves [OF this e(1,2) _ e(3)] have r1: "reach MarkO ?b MarkO"
    by (simp add: o)
  have nt: "computeWinner ?b = None" "\<not> every_Boolean ?b"
    unfolding empty9 upd9 cw9 full9 by simp_all
  from full_depth_minimax_never_loses [OF r1] nt obtain m where
    m: "m < 9" "chooseBestMove (JsArray ?b) MarkO ?opts = Inr (int m)"
    by blast
  from reach.ai_moves [OF r1 nt m(2)] have r2: "reach MarkO (?b[m := Some MarkO]) MarkX"
    by (simp add: o)
  from full_depth_minimax_never_loses [OF r2] have "computeWinner (?b[m := Some MarkO]) \<noteq> Some MarkX"
    by (simp add: o)
  with r1 r2 m show ?thesis by blast
qed

end
